theory Spec2Isabelle
  imports
    Main
    "HOL-Library.AList"
    "HOL-Library.Char_ord"
    "HOL-Library.List_Lexorder"
    "HOL-Library.Sublist"
begin

section \<open>simplelock: the lock registry and the lock, unlock and locks commands\<close>

text \<open>
  A shallow embedding of \<^verbatim>\<open>src/simplelock.py\<close>. Strings are byte strings
  (\<^typ>\<open>string\<close>), as the \<^verbatim>\<open>str\<close> of the Python 2 interpreter this Mercurial
  extension was written for. The registry is the file \<^verbatim>\<open>locked\<close> in the working
  copy of the lock repository; its content is a \<^typ>\<open>string option\<close>, \<open>None\<close> when the
  file does not exist.

  Every command starts with \<^verbatim>\<open>lsync(repo)\<close>, which only calls Mercurial (update, strip,
  pull). The state a command is given here is the mirror as \<^verbatim>\<open>lsync\<close> left it: the lock
  repository is configured and opened, and its working copy is reconciled. What Mercurial
  itself does (\<^verbatim>\<open>commands.commit\<close>, \<^verbatim>\<open>commands.push\<close>, \<^verbatim>\<open>scmutil.match\<close>,
  \<^verbatim>\<open>readlockables\<close>) enters as an input: the outcome of commit and push, the list
  \<^verbatim>\<open>m.files()\<close>, the list of lockable files.
\<close>

subsection \<open>Strings: strip, split, join, lines, decimal numbers\<close>

abbreviation TAB :: char where "TAB \<equiv> CHR 0x09"
abbreviation NL :: char where "NL \<equiv> CHR 0x0A"

text \<open>The characters \<^verbatim>\<open>str.strip()\<close> removes: space, \<^verbatim>\<open>\t \n \v \f \r\<close>.\<close>

definition isspace :: "char \<Rightarrow> bool" where
  "isspace ch = (ch = CHR 0x20 \<or> ch = CHR 0x09 \<or> ch = CHR 0x0A \<or> ch = CHR 0x0B
     \<or> ch = CHR 0x0C \<or> ch = CHR 0x0D)"

definition strip :: "string \<Rightarrow> string" where
  "strip s = rev (dropWhile isspace (rev (dropWhile isspace s)))"

text \<open>
  \<^verbatim>\<open>s.split(sep)\<close> with a one-character separator: one field more than there are
  separators. \<open>cur\<close> is the field being read.
\<close>

fun split_from :: "char \<Rightarrow> string \<Rightarrow> string \<Rightarrow> string list" where
  "split_from sep cur [] = [cur]"
| "split_from sep cur (x # xs) =
     (if x = sep then cur # split_from sep [] xs else split_from sep (cur @ [x]) xs)"

definition split_on :: "char \<Rightarrow> string \<Rightarrow> string list" where
  "split_on sep s = split_from sep [] s"

text \<open>\<^verbatim>\<open>sep.join(fields)\<close>.\<close>

fun join :: "string \<Rightarrow> string list \<Rightarrow> string" where
  "join sep [] = []"
| "join sep [f] = f"
| "join sep (f # g # fs) = f @ sep @ join sep (g # fs)"

text \<open>
  \<^verbatim>\<open>for line in f\<close>: the lines of a file, each with its newline; the last line has
  none when the file does not end in one.
\<close>

fun readlines :: "string \<Rightarrow> string list" where
  "readlines [] = []"
| "readlines (x # xs) =
     (if x = NL then [x] # readlines xs
      else (case readlines xs of [] \<Rightarrow> [[x]] | l # ls \<Rightarrow> (x # l) # ls))"

text \<open>\<^verbatim>\<open>'%d' % n\<close> for a natural number.\<close>

fun show_nat :: "nat \<Rightarrow> string" where
  "show_nat n =
     (if n < 10 then [char_of (48 + n)]
      else show_nat (n div 10) @ [char_of (48 + n mod 10)])"

declare show_nat.simps [simp del]

subsection \<open>The record codec\<close>

text \<open>
  \<^verbatim>\<open>fields = line.strip().split('\t')\<close> in \<^verbatim>\<open>parseLocks\<close> and \<^verbatim>\<open>unlockcmd\<close>, and
  \<^verbatim>\<open>'\t'.join([...]) + '\n'\<close> in \<^verbatim>\<open>lockcmd\<close>.
\<close>

definition decode :: "string \<Rightarrow> string list" where
  "decode line = split_on TAB (strip line)"

definition encode :: "string list \<Rightarrow> string" where
  "encode fields = join [TAB] fields @ [NL]"

subsection \<open>State, context, results\<close>

datatype error = IOError | Abort string

datatype event = Warn string | Status string | Commit string | Push

record world =
  locked :: "string option"
  events :: "event list"

text \<open>
  \<^verbatim>\<open>hex(repo[0].node())\<close>, \<^verbatim>\<open>repo.dirstate.branch()\<close> and \<^verbatim>\<open>ui.username()\<close> of the
  calling repository.
\<close>

record ctx =
  repoid :: string
  curbranch :: string
  curuser :: string

text \<open>What \<^verbatim>\<open>commands.commit\<close> and \<^verbatim>\<open>commands.push\<close> do when called.\<close>

datatype outcome = Done | Aborts string

record hg =
  commit_outcome :: outcome
  push_outcome :: outcome

definition emit :: "event \<Rightarrow> world \<Rightarrow> world" where
  "emit e s = s\<lparr>events := events s @ [e]\<rparr>"

text \<open>
  \<^verbatim>\<open>commitpush\<close>: an abort of the commit propagates; an abort of the push is caught
  and becomes a warning.
\<close>

definition commitpush :: "string \<Rightarrow> hg \<Rightarrow> world \<Rightarrow> (error + unit) \<times> world" where
  "commitpush message env s =
     (case commit_outcome env of
        Aborts why \<Rightarrow> (Inl (Abort why), s)
      | Done \<Rightarrow>
          (case push_outcome env of
             Done \<Rightarrow> (Inr (), emit Push (emit (Commit message) s))
           | Aborts why \<Rightarrow>
               (Inr (), emit (Warn (''Lock push failed, please retry'' @ [NL]))
                          (emit Push (emit (Commit message) s)))))"

subsection \<open>parseLocks\<close>

type_synonym lockdict = "(string \<times> (string \<times> string)) list"

text \<open>The loop over the lines; the dict is an association list, a later line replaces
  the entry of an earlier one.\<close>

fun parse_loop :: "ctx \<Rightarrow> string list \<Rightarrow> lockdict \<Rightarrow> lockdict" where
  "parse_loop c [] locks = locks"
| "parse_loop c (line # rest) locks =
     (let fields = decode line in
      if length fields \<noteq> 5 then parse_loop c rest locks
      else
        (let rid = fields ! 0; branch = fields ! 1; wfile = fields ! 2;
             user = fields ! 3; purpose = fields ! 4
         in if rid = repoid c \<and> branch = curbranch c
            then parse_loop c rest (AList.update wfile (user, purpose) locks)
            else parse_loop c rest locks))"

definition parseLocks :: "ctx \<Rightarrow> world \<Rightarrow> lockdict \<times> world" where
  "parseLocks c s =
     (case locked s of
        None \<Rightarrow> ([], emit (Warn ''Locked file not present, abort'') s)
      | Some content \<Rightarrow> (parse_loop c (readlines content) [], s))"

subsection \<open>locks\<close>

fun locks_loop :: "lockdict \<Rightarrow> bool \<Rightarrow> string list \<Rightarrow> event list" where
  "locks_loop locks unlocked [] = []"
| "locks_loop locks unlocked (wfile # rest) =
     (case map_of locks wfile of
        Some (user, purpose) \<Rightarrow>
          Status (wfile @ '' is locked by '' @ user @ '' for '' @ purpose @ [NL])
            # locks_loop locks unlocked rest
      | None \<Rightarrow>
          (if unlocked then Status (wfile @ '' is unlocked'' @ [NL]) # locks_loop locks unlocked rest
           else locks_loop locks unlocked rest))"

text \<open>\<^verbatim>\<open>sorted(set(lockables) | set(locks))\<close>.\<close>

definition sorted_union :: "string list \<Rightarrow> lockdict \<Rightarrow> string list" where
  "sorted_union lockables locks = sort (remdups (lockables @ map fst locks))"

text \<open>\<^verbatim>\<open>pats\<close> are the positional arguments, \<^verbatim>\<open>lockables\<close> is what
  \<^verbatim>\<open>readlockables(repo)\<close> returns.\<close>

definition lockscmd :: "ctx \<Rightarrow> string list \<Rightarrow> bool \<Rightarrow> string list \<Rightarrow> world \<Rightarrow> (error + int) \<times> world" where
  "lockscmd c pats unlocked lockables s =
     (let (locks, s1) = parseLocks c s;
          sum = sorted_union lockables locks
      in (Inr 0, s1\<lparr>events := events s1 @ locks_loop locks unlocked sum\<rparr>))"

subsection \<open>unlock\<close>

text \<open>
  The loop over the lines. \<^verbatim>\<open>outlines.append(line)\<close> stands inside
  \<^verbatim>\<open>if len(fields) == 5:\<close>, so a line that does not split into five fields goes
  neither to \<^verbatim>\<open>cleared\<close> nor to \<^verbatim>\<open>outlines\<close>.
\<close>

fun unlock_loop ::
  "ctx \<Rightarrow> string list \<Rightarrow> bool \<Rightarrow> string list \<Rightarrow> string set \<times> string list
     \<Rightarrow> string set \<times> string list" where
  "unlock_loop c ulock force [] (cleared, outlines) = (cleared, outlines)"
| "unlock_loop c ulock force (line # rest) (cleared, outlines) =
     (let fields = decode line in
      if length fields = 5 then
        (let rid = fields ! 0; branch = fields ! 1; wfile = fields ! 2; user = fields ! 3
         in if rid = repoid c \<and> branch = curbranch c \<and> wfile \<in> set ulock
            then (if user = curuser c \<or> force
                  then unlock_loop c ulock force rest (insert wfile cleared, outlines)
                  else unlock_loop c ulock force rest (cleared, outlines @ [line]))
            else unlock_loop c ulock force rest (cleared, outlines @ [line]))
      else unlock_loop c ulock force rest (cleared, outlines))"

definition shortfall_msg :: "nat \<Rightarrow> nat \<Rightarrow> string" where
  "shortfall_msg ncleared nfiles =
     (if nfiles = 1 then ''No locks found for specified file'' @ [NL]
      else ''Only '' @ show_nat ncleared @ '' of '' @ show_nat nfiles
             @ '' files were locked'' @ [NL])"

definition unlockcmd :: "ctx \<Rightarrow> string list \<Rightarrow> bool \<Rightarrow> hg \<Rightarrow> world \<Rightarrow> (error + int) \<times> world" where
  "unlockcmd c ulock force env s =
     (case locked s of
        None \<Rightarrow> (Inl IOError, s)
      | Some content \<Rightarrow>
          (let (cleared, outlines) = unlock_loop c ulock force (readlines content) ({}, [])
           in if card cleared \<noteq> length ulock
              then (Inr 1, emit (Warn (shortfall_msg (card cleared) (length ulock))) s)
              else
                (case commitpush ''remove lock'' env (s\<lparr>locked := Some (concat outlines)\<rparr>) of
                   (Inl e, s') \<Rightarrow> (Inl e, s')
                 | (Inr u, s') \<Rightarrow> (Inr 0, s'))))"

subsection \<open>lock\<close>

text \<open>\<^verbatim>\<open>open(dfile, 'a')\<close> creates the file when it does not exist.\<close>

definition append_file :: "string \<Rightarrow> world \<Rightarrow> world" where
  "append_file text s =
     s\<lparr>locked := Some ((case locked s of None \<Rightarrow> [] | Some content \<Rightarrow> content) @ text)\<rparr>"

definition lockcmd :: "ctx \<Rightarrow> string list \<Rightarrow> string \<Rightarrow> hg \<Rightarrow> world \<Rightarrow> (error + int) \<times> world" where
  "lockcmd c files purpose_opt env s =
     (let (locks, s1) = parseLocks c s in
      case find (\<lambda>wfile. map_of locks wfile \<noteq> None) files of
        Some wfile \<Rightarrow> (Inl (Abort (wfile @ '' is already locked'' @ [NL])), s1)
      | None \<Rightarrow>
          (let purpose = (if purpose_opt = [] then ''editing'' else purpose_opt);
               s2 = append_file
                      (concat (map (\<lambda>wfile. encode [repoid c, curbranch c, wfile, curuser c, purpose])
                                 files)) s1
           in case commitpush ''add lock'' env s2 of
                (Inl e, s') \<Rightarrow> (Inl e, s')
              | (Inr u, s') \<Rightarrow> (Inr 0, s')))"

subsection \<open>Vocabulary of the properties\<close>

text \<open>
  A line that an unlock request clears: it splits into five fields, the first three are
  the caller's repository, the caller's branch and a requested path, and the fourth is the
  caller unless force is set.
\<close>

definition clears :: "ctx \<Rightarrow> string list \<Rightarrow> bool \<Rightarrow> string \<Rightarrow> bool" where
  "clears c ulock force line =
     (let fields = decode line in
      length fields = 5 \<and>
      (let rid = fields ! 0; branch = fields ! 1; wfile = fields ! 2; user = fields ! 3
       in rid = repoid c \<and> branch = curbranch c \<and> wfile \<in> set ulock
          \<and> (user = curuser c \<or> force)))"

text \<open>The paths an unlock request clears in a registry: the third field of every line
  it clears.\<close>

definition cleared_paths :: "ctx \<Rightarrow> string list \<Rightarrow> bool \<Rightarrow> string \<Rightarrow> string set" where
  "cleared_paths c ulock force content =
     set (map (\<lambda>line. decode line ! 2) (filter (clears c ulock force) (readlines content)))"

text \<open>The lines an unlock request writes back: those of five fields that it does not
  clear.\<close>

definition kept_lines :: "ctx \<Rightarrow> string list \<Rightarrow> bool \<Rightarrow> string \<Rightarrow> string list" where
  "kept_lines c ulock force content =
     filter (\<lambda>line. length (decode line) = 5 \<and> \<not> clears c ulock force line)
       (readlines content)"

text \<open>The line the locks command prints for a path: who holds it, or that nobody does.\<close>

definition report :: "lockdict \<Rightarrow> string \<Rightarrow> event" where
  "report locks wfile =
     (case map_of locks wfile of
        Some (user, purpose) \<Rightarrow>
          Status (wfile @ '' is locked by '' @ user @ '' for '' @ purpose @ [NL])
      | None \<Rightarrow> Status (wfile @ '' is unlocked'' @ [NL]))"

text \<open>The message of the warning that \<^verbatim>\<open>commitpush\<close> prints when the push aborts.\<close>

definition retry_warning :: event where
  "retry_warning = Warn (''Lock push failed, please retry'' @ [NL])"

text \<open>
  A field that holds no tab and no newline, and neither starts nor ends with a character
  that \<^verbatim>\<open>strip\<close> removes.
\<close>

definition clean_field :: "string \<Rightarrow> bool" where
  "clean_field f =
     (TAB \<notin> set f \<and> NL \<notin> set f \<and> (f = [] \<or> (\<not> isspace (hd f) \<and> \<not> isspace (last f))))"

subsection \<open>Concrete states used to exercise the theorems\<close>

definition alice :: ctx where
  "alice = \<lparr>repoid = ''r1'', curbranch = ''dev'', curuser = ''alice''\<rparr>"

definition hg_ok :: hg where
  "hg_ok = \<lparr>commit_outcome = Done, push_outcome = Done\<rparr>"

definition hg_push_fails :: hg where
  "hg_push_fails = \<lparr>commit_outcome = Done, push_outcome = Aborts ''push failed''\<rparr>"

definition empty_registry :: world where
  "empty_registry = \<lparr>locked = Some [], events = []\<rparr>"

definition no_registry :: world where
  "no_registry = \<lparr>locked = None, events = []\<rparr>"

text \<open>A registry of three lines: a lock of alice, a lock of bob, and a line of two fields.\<close>

definition registry3 :: string where
  "registry3 =
     encode [''r1'', ''dev'', ''a'', ''alice'', ''edit'']
     @ encode [''r1'', ''dev'', ''b'', ''bob'', ''edit'']
     @ encode [''junk'', ''line'']"

definition world3 :: world where
  "world3 = \<lparr>locked = Some registry3, events = []\<rparr>"

subsection \<open>Sequences of lock operations\<close>

text \<open>
  One lock operation of such a sequence: the targets \<^verbatim>\<open>m.files()\<close>, the user who runs it,
  and the \<^verbatim>\<open>--purpose\<close> option (empty when not given).
\<close>

type_synonym lockop = "string list \<times> string \<times> string"

text \<open>
  The operations are run one after the other on clones of one repository and branch; every
  commit and push succeeds, so that the reconciled mirror each operation starts from is the
  mirror the previous one left. The run stops at the first operation that raises.
\<close>

fun lock_all :: "string \<Rightarrow> string \<Rightarrow> lockop list \<Rightarrow> world \<Rightarrow> (error + int) \<times> world" where
  "lock_all rid br [] s = (Inr 0, s)"
| "lock_all rid br ((files, user, purpose_opt) # ops) s =
     (case lockcmd \<lparr>repoid = rid, curbranch = br, curuser = user\<rparr> files purpose_opt hg_ok s of
        (Inl e, s') \<Rightarrow> (Inl e, s')
      | (Inr code, s') \<Rightarrow> lock_all rid br ops s')"

text \<open>The record an operation is to leave for a target, and the records of a whole sequence.\<close>

definition record_of :: "string \<Rightarrow> string \<Rightarrow> string \<Rightarrow> string \<Rightarrow> string \<Rightarrow> string list" where
  "record_of rid br user purpose_opt wfile =
     [rid, br, wfile, user, if purpose_opt = [] then ''editing'' else purpose_opt]"

definition acquired :: "string \<Rightarrow> string \<Rightarrow> lockop list \<Rightarrow> string list list" where
  "acquired rid br ops =
     concat (map (\<lambda>(files, user, purpose_opt). map (record_of rid br user purpose_opt) files) ops)"

text \<open>
  Values that survive the trip through the file: no tab and no newline in any of them, a
  repository identity that is not empty and does not start with whitespace, a purpose that
  does not end with whitespace.
\<close>

definition plain :: "string \<Rightarrow> bool" where
  "plain f = (TAB \<notin> set f \<and> NL \<notin> set f)"

definition sane_repo :: "string \<Rightarrow> string \<Rightarrow> bool" where
  "sane_repo rid br = (plain rid \<and> plain br \<and> rid \<noteq> [] \<and> \<not> isspace (hd rid))"

definition sane_op :: "lockop \<Rightarrow> bool" where
  "sane_op op =
     (case op of (files, user, purpose_opt) \<Rightarrow>
        (\<forall>wfile \<in> set files. plain wfile) \<and> plain user \<and> plain purpose_opt
        \<and> (purpose_opt = [] \<or> \<not> isspace (last purpose_opt)))"

definition wf_record :: "string \<Rightarrow> string \<Rightarrow> string list \<Rightarrow> bool" where
  "wf_record rid br r =
     (length r = 5 \<and> r ! 0 = rid \<and> r ! 1 = br \<and> plain (r ! 2) \<and> plain (r ! 3) \<and> plain (r ! 4)
      \<and> r ! 4 \<noteq> [] \<and> \<not> isspace (last (r ! 4)))"

section \<open>Properties\<close>

subsection \<open>unlock\<close>

lemma concat_readlines: "concat (readlines s) = s"
  by (induction s) (auto split: list.splits)

lemma unlock_loop_eq:
  "unlock_loop c ulock force ls (cleared, outlines) =
     (cleared \<union> (\<lambda>l. decode l ! 2) ` {l \<in> set ls. clears c ulock force l},
      outlines @ filter (\<lambda>l. length (decode l) = 5 \<and> \<not> clears c ulock force l) ls)"
  by (induction ls arbitrary: cleared outlines) (auto simp: clears_def Let_def)

lemma unlock_loop_paths:
  "unlock_loop c ulock force (readlines content) ({}, []) =
     (cleared_paths c ulock force content, kept_lines c ulock force content)"
  by (auto simp: unlock_loop_eq cleared_paths_def kept_lines_def)

lemma cleared_paths_subset: "cleared_paths c ulock force content \<subseteq> set ulock"
  by (auto simp: cleared_paths_def clears_def Let_def)

lemma card_cleared_paths_le: "card (cleared_paths c ulock force content) \<le> length ulock"
proof -
  have "card (cleared_paths c ulock force content) \<le> card (set ulock)"
    by (rule card_mono) (simp_all add: cleared_paths_subset)
  also have "\<dots> \<le> length ulock" by (rule card_length)
  finally show ?thesis .
qed

lemma unlockcmd_shortfall:
  assumes "locked s = Some content"
    and "card (cleared_paths c ulock force content) \<noteq> length ulock"
  shows "unlockcmd c ulock force env s =
    (Inr 1, emit (Warn (shortfall_msg (card (cleared_paths c ulock force content)) (length ulock))) s)"
  using assms by (simp add: unlockcmd_def unlock_loop_paths)

lemma unlockcmd_full:
  assumes "locked s = Some content"
    and "card (cleared_paths c ulock force content) = length ulock"
  shows "unlockcmd c ulock force env s =
    (case commitpush ''remove lock'' env
            (s\<lparr>locked := Some (concat (kept_lines c ulock force content))\<rparr>) of
       (Inl e, s') \<Rightarrow> (Inl e, s') | (Inr u, s') \<Rightarrow> (Inr 0, s'))"
  using assms by (simp add: unlockcmd_def unlock_loop_paths)

lemma locked_commitpush: "locked (snd (commitpush message env s)) = locked s"
  by (simp add: commitpush_def emit_def split: outcome.splits)

text \<open>
  On a registry file of any content, an unlock request that clears fewer paths than it
  names returns 1 and leaves behind the state it was given but for one warning: the
  registry file is untouched, there is no commit and no push. The cleared paths are among
  the requested ones, so ``fewer'' is the \<^verbatim>\<open>!=\<close> that the code tests.
\<close>

lemma unlock_shortfall_on_file:
  assumes "locked s = Some content"
    and "card (cleared_paths c ulock force content) < length ulock"
  shows "\<exists>msg. unlockcmd c ulock force env s = (Inr 1, s\<lparr>events := events s @ [Warn msg]\<rparr>)"
  using assms by (auto simp: unlockcmd_shortfall emit_def)

lemma unlock_shortfall_on_file_example:
  "card (cleared_paths alice [''b''] False registry3) < length [''b'']
   \<and> fst (unlockcmd alice [''b''] False hg_ok world3) = Inr 1
   \<and> locked (snd (unlockcmd alice [''b''] False hg_ok world3)) = Some registry3"
proof -
  have h1: "locked world3 = Some registry3" by (simp add: world3_def)
  have h2: "card (cleared_paths alice [''b''] False registry3) < length [''b'']"
    by code_simp
  from unlock_shortfall_on_file [OF h1 h2, of hg_ok]
  show ?thesis using h1 h2 by auto
qed

text \<open>
  C2. The claim speaks of every registry state. With no registry file, which
  \<^verbatim>\<open>parseLocks\<close> takes for the empty registry, an unlock request clears nothing, fewer
  than the two paths it names; the state is left as it was, but the command does not
  return 1: \<^verbatim>\<open>open(dfile, 'r')\<close> raises \<^verbatim>\<open>IOError\<close>.
\<close>

theorem unlock_shortfall_without_registry:
  "fst (unlockcmd alice [''a'', ''b''] True hg_ok no_registry) = Inl IOError
   \<and> fst (unlockcmd alice [''a'', ''b''] True hg_ok no_registry) \<noteq> Inr 1
   \<and> snd (unlockcmd alice [''a'', ''b''] True hg_ok no_registry) = no_registry"
  by (simp add: unlockcmd_def no_registry_def)

text \<open>
  What a successful unlock writes: the lines of five fields that it does not clear, in the
  order of the file and byte for byte.
\<close>

lemma unlock_success_file:
  assumes "locked s = Some content"
    and "fst (unlockcmd c ulock force env s) = Inr 0"
  shows "locked (snd (unlockcmd c ulock force env s))
           = Some (concat (filter (\<lambda>line. length (decode line) = 5 \<and> \<not> clears c ulock force line)
                             (readlines content)))"
proof -
  have full: "card (cleared_paths c ulock force content) = length ulock"
  proof (rule ccontr)
    assume "card (cleared_paths c ulock force content) \<noteq> length ulock"
    from unlockcmd_shortfall [OF assms(1) this, of env] assms(2) show False by simp
  qed
  have "locked (snd (unlockcmd c ulock force env s))
          = locked (snd (commitpush ''remove lock'' env
               (s\<lparr>locked := Some (concat (kept_lines c ulock force content))\<rparr>)))"
    by (simp add: unlockcmd_full [OF assms(1) full] split: prod.splits sum.splits)
  then show ?thesis
    by (simp add: locked_commitpush kept_lines_def)
qed

lemma clears_iff:
  "clears c ulock force line \<longleftrightarrow>
     (\<exists>rid branch wfile user purpose.
        decode line = [rid, branch, wfile, user, purpose]
        \<and> rid = repoid c \<and> branch = curbranch c \<and> wfile \<in> set ulock
        \<and> (user = curuser c \<or> force))"
proof
  assume cl: "clears c ulock force line"
  then have "length (decode line) = 5" by (simp add: clears_def Let_def)
  then obtain f1 f2 f3 f4 f5 where "decode line = [f1, f2, f3, f4, f5]"
    by (auto simp: length_Suc_conv eval_nat_numeral)
  with cl show "\<exists>rid branch wfile user purpose.
        decode line = [rid, branch, wfile, user, purpose]
        \<and> rid = repoid c \<and> branch = curbranch c \<and> wfile \<in> set ulock
        \<and> (user = curuser c \<or> force)"
    by (simp add: clears_def Let_def)
next
  assume "\<exists>rid branch wfile user purpose.
        decode line = [rid, branch, wfile, user, purpose]
        \<and> rid = repoid c \<and> branch = curbranch c \<and> wfile \<in> set ulock
        \<and> (user = curuser c \<or> force)"
  then show "clears c ulock force line"
    by (auto simp: clears_def Let_def)
qed

text \<open>
  C4. The claim has every line that is not cleared, those that do not split into five
  fields included, written back. The code does not write such a line back. In a registry
  of alice's lock on \<^verbatim>\<open>a\<close>, bob's lock on \<^verbatim>\<open>b\<close> and the line
  \<^verbatim>\<open>junk TAB line\<close>, alice unlocks \<^verbatim>\<open>a\<close>: the command succeeds, the third line is not
  one it clears, and the file that is left holds bob's lock alone.
\<close>

theorem unlock_drops_short_lines:
  "readlines registry3
     = [encode [''r1'', ''dev'', ''a'', ''alice'', ''edit''],
        encode [''r1'', ''dev'', ''b'', ''bob'', ''edit''],
        encode [''junk'', ''line'']]
   \<and> fst (unlockcmd alice [''a''] False hg_ok world3) = Inr 0
   \<and> \<not> clears alice [''a''] False (encode [''junk'', ''line''])
   \<and> locked (snd (unlockcmd alice [''a''] False hg_ok world3))
       = Some (encode [''r1'', ''dev'', ''b'', ''bob'', ''edit''])"
proof -
  have a: "readlines registry3
     = [encode [''r1'', ''dev'', ''a'', ''alice'', ''edit''],
        encode [''r1'', ''dev'', ''b'', ''bob'', ''edit''],
        encode [''junk'', ''line'']]" by code_simp
  have b: "fst (unlockcmd alice [''a''] False hg_ok world3) = Inr 0" by code_simp
  have c: "\<not> clears alice [''a''] False (encode [''junk'', ''line''])" by code_simp
  have d: "locked (snd (unlockcmd alice [''a''] False hg_ok world3))
       = Some (encode [''r1'', ''dev'', ''b'', ''bob'', ''edit''])" by code_simp
  from a b c d show ?thesis by blast
qed

text \<open>
  C5 (as amended). When unlock stops on a shortfall, the warning is chosen by the number
  of requested files, not by the number cleared: with exactly one requested file it is
  ``No locks found for specified file'' (and then nothing was cleared); with any other
  number of requested files it is ``Only N of M files were locked'', N the number of paths
  cleared (which may be 0) and M the number requested.
\<close>
theorem unlock_shortfall_message:
  assumes "locked s = Some content"
    and "card (cleared_paths c ulock force content) < length ulock"
  shows "events (snd (unlockcmd c ulock force env s)) =
           events s @
           [Warn (if length ulock = 1 then ''No locks found for specified file'' @ [NL]
                  else ''Only '' @ show_nat (card (cleared_paths c ulock force content))
                       @ '' of '' @ show_nat (length ulock) @ '' files were locked'' @ [NL])]
    \<and> (length ulock = 1 \<longrightarrow> cleared_paths c ulock force content = {})"
proof
  from assms(2) have ne: "card (cleared_paths c ulock force content) \<noteq> length ulock" by simp
  show "events (snd (unlockcmd c ulock force env s)) =
           events s @
           [Warn (if length ulock = 1 then ''No locks found for specified file'' @ [NL]
                  else ''Only '' @ show_nat (card (cleared_paths c ulock force content))
                       @ '' of '' @ show_nat (length ulock) @ '' files were locked'' @ [NL])]"
    by (simp add: unlockcmd_shortfall [OF assms(1) ne] emit_def shortfall_msg_def)
next
  have "finite (cleared_paths c ulock force content)" by (simp add: cleared_paths_def)
  with assms(2) show "length ulock = 1 \<longrightarrow> cleared_paths c ulock force content = {}"
    by auto
qed

theorem unlock_shortfall_message_witness:
  "locked world3 = Some registry3
   \<and> card (cleared_paths alice [''a'', ''c''] False registry3) < length [''a'', ''c'']
   \<and> events (snd (unlockcmd alice [''a'', ''c''] False hg_ok world3))
       = [Warn (''Only 1 of 2 files were locked'' @ [NL])]"
proof -
  have h1: "locked world3 = Some registry3" by (simp add: world3_def)
  have h2: "card (cleared_paths alice [''a'', ''c''] False registry3) < length [''a'', ''c'']"
    by code_simp
  have h3: "show_nat (card (cleared_paths alice [''a'', ''c''] False registry3)) = ''1''"
    by code_simp
  have h4: "show_nat (length [''a'', ''c'']) = ''2''" by code_simp
  have h5: "events world3 = []" by (simp add: world3_def)
  from unlock_shortfall_message [OF h1 h2, of hg_ok]
  show ?thesis using h1 h2 h3 h4 h5 by simp
qed

text \<open>
  The claim as stated fails for two requested files of which none is locked: nothing is
  cleared, and the warning is the ``N of M'' one.
\<close>

theorem unlock_zero_of_two_counterexample:
  "cleared_paths alice [''a'', ''b''] False [] = {}
   \<and> events (snd (unlockcmd alice [''a'', ''b''] False hg_ok empty_registry))
       = [Warn (''Only 0 of 2 files were locked'' @ [NL])]
   \<and> events (snd (unlockcmd alice [''a'', ''b''] False hg_ok empty_registry))
       \<noteq> [Warn (''No locks found for specified file'' @ [NL])]"
proof -
  have a: "cleared_paths alice [''a'', ''b''] False [] = {}" by code_simp
  have b: "events (snd (unlockcmd alice [''a'', ''b''] False hg_ok empty_registry))
       = [Warn (''Only 0 of 2 files were locked'' @ [NL])]" by code_simp
  show ?thesis unfolding b using a by simp
qed

subsection \<open>A missing registry file\<close>

text \<open>
  C6. \<^verbatim>\<open>parseLocks\<close> tests \<^verbatim>\<open>os.path.exists\<close>, warns and returns the empty dict, so lock
  and locks go on with no locks held. \<^verbatim>\<open>unlockcmd\<close> opens the file for reading with no
  such test: with no registry file it raises \<^verbatim>\<open>IOError\<close>, prints no warning, and does
  not treat the registry as empty.
\<close>
theorem unlock_missing_registry_raises:
  "unlockcmd alice [''a''] False hg_ok no_registry = (Inl IOError, no_registry)
   \<and> parseLocks alice no_registry
       = ([], \<lparr>locked = None, events = [Warn ''Locked file not present, abort'']\<rparr>)"
  by (simp add: unlockcmd_def parseLocks_def no_registry_def emit_def)

subsection \<open>locks\<close>

text \<open>
  C10. The positional arguments of the locks command are never read: two invocations that
  differ only in them return the same result and leave the same state, so print the same
  lines.
\<close>
theorem locks_ignores_patterns:
  "lockscmd c pats unlocked lockables s = lockscmd c pats' unlocked lockables s"
  by (simp add: lockscmd_def)

lemma locks_loop_unlocked: "locks_loop locks True paths = map (report locks) paths"
  by (induction paths) (auto simp: report_def split: option.splits)

lemma locks_loop_locked_only:
  "locks_loop locks False paths = map (report locks) (filter (\<lambda>wfile. map_of locks wfile \<noteq> None) paths)"
  by (induction paths) (auto simp: report_def split: option.splits)

lemma events_lockscmd:
  "events (snd (lockscmd c pats unlocked lockables s)) =
     events (snd (parseLocks c s))
     @ locks_loop (fst (parseLocks c s)) unlocked (sorted_union lockables (fst (parseLocks c s)))"
  by (simp add: lockscmd_def case_prod_beta)

text \<open>
  C9. The locks command walks the sorted union of the lockable paths and the locked paths:
  a list in increasing lexicographic order, without repetition. With \<^verbatim>\<open>--unlocked\<close> it
  prints one line for each of these paths, in that order; without, it prints the lines of
  the locked paths only, in the same order. So what it prints without the flag is a
  subsequence of what it prints with it.
\<close>
theorem locks_sorted_union_and_subseq:
  fixes c pats lockables s
  defines "locks \<equiv> fst (parseLocks c s)"
  defines "paths \<equiv> sorted_union lockables locks"
  shows "sorted paths \<and> distinct paths \<and> set paths = set lockables \<union> dom (map_of locks)
    \<and> events (snd (lockscmd c pats True lockables s))
         = events (snd (parseLocks c s)) @ map (report locks) paths
    \<and> events (snd (lockscmd c pats False lockables s))
         = events (snd (parseLocks c s))
           @ map (report locks) (filter (\<lambda>wfile. map_of locks wfile \<noteq> None) paths)
    \<and> subseq (events (snd (lockscmd c pats False lockables s)))
              (events (snd (lockscmd c pats True lockables s)))"
proof (intro conjI)
  show "sorted paths" by (simp add: paths_def sorted_union_def)
  show "distinct paths" by (simp add: paths_def sorted_union_def)
  show "set paths = set lockables \<union> dom (map_of locks)"
    by (simp add: paths_def sorted_union_def dom_map_of_conv_image_fst)
  show t: "events (snd (lockscmd c pats True lockables s))
         = events (snd (parseLocks c s)) @ map (report locks) paths"
    by (simp add: events_lockscmd locks_loop_unlocked locks_def paths_def)
  show f: "events (snd (lockscmd c pats False lockables s))
         = events (snd (parseLocks c s))
           @ map (report locks) (filter (\<lambda>wfile. map_of locks wfile \<noteq> None) paths)"
    by (simp add: events_lockscmd locks_loop_locked_only locks_def paths_def)
  show "subseq (events (snd (lockscmd c pats False lockables s)))
              (events (snd (lockscmd c pats True lockables s)))"
    unfolding t f subseq_append' by (rule subseq_map) simp
qed

subsection \<open>lock\<close>

lemma parseLocks_present:
  "locked s = Some content \<Longrightarrow> parseLocks c s = (parse_loop c (readlines content) [], s)"
  by (simp add: parseLocks_def)

lemma parseLocks_absent:
  "locked s = None \<Longrightarrow> fst (parseLocks c s) = []"
  by (simp add: parseLocks_def)

text \<open>
  C3. When a target path is in the mapping that \<^verbatim>\<open>parseLocks\<close> returns for the caller's
  repository and branch, lock raises \<^verbatim>\<open>Abort\<close> with the ``already locked'' message of a
  target path that is in the mapping (the first one, in the order of the targets), and the
  state is the one it was given: nothing is appended, nothing committed or pushed.
\<close>
theorem lock_already_locked_aborts:
  assumes "wfile \<in> set files"
    and "map_of (fst (parseLocks c s)) wfile \<noteq> None"
  shows "\<exists>w \<in> set files. map_of (fst (parseLocks c s)) w \<noteq> None
      \<and> lockcmd c files purpose_opt env s
          = (Inl (Abort (w @ '' is already locked'' @ [NL])), s)"
proof -
  let ?P = "\<lambda>w. map_of (fst (parseLocks c s)) w \<noteq> None"
  from assms have "find ?P files \<noteq> None" by (auto simp: find_None_iff)
  then obtain w where w: "find ?P files = Some w" by auto
  then have in_files: "w \<in> set files" and held: "?P w"
    by (auto simp: find_Some_iff)
  from assms(2) obtain content where "locked s = Some content"
    by (cases "locked s") (auto simp: parseLocks_absent)
  then have same: "snd (parseLocks c s) = s" by (simp add: parseLocks_present)
  have "lockcmd c files purpose_opt env s = (Inl (Abort (w @ '' is already locked'' @ [NL])), s)"
    using w same by (simp add: lockcmd_def case_prod_beta)
  with in_files held show ?thesis by blast
qed

theorem lock_already_locked_aborts_witness:
  "''b'' \<in> set [''c'', ''b'']
   \<and> map_of (fst (parseLocks alice world3)) ''b'' \<noteq> None
   \<and> lockcmd alice [''c'', ''b''] [] hg_ok world3
       = (Inl (Abort (''b is already locked'' @ [NL])), world3)"
proof -
  have h1: "''b'' \<in> set [''c'', ''b'']" by simp
  have h2: "map_of (fst (parseLocks alice world3)) ''b'' \<noteq> None" by code_simp
  have h3: "map_of (fst (parseLocks alice world3)) ''c'' = None" by code_simp
  from lock_already_locked_aborts [OF h1 h2, of "[]" hg_ok]
  show ?thesis using h1 h2 h3 by auto
qed

subsection \<open>commit and push\<close>

lemma commitpush_push_aborts:
  assumes "commit_outcome env = Done" and "push_outcome env = Aborts why"
  shows "commitpush message env s =
    (Inr (), s\<lparr>events := events s @ [Commit message, Push, retry_warning]\<rparr>)"
  using assms by (simp add: commitpush_def emit_def retry_warning_def)

lemma lockcmd_unheld:
  assumes "\<forall>w \<in> set files. map_of (fst (parseLocks c s)) w = None"
  shows "lockcmd c files purpose_opt env s =
    (case commitpush ''add lock'' env
       (append_file
          (concat (map (\<lambda>wfile. encode [repoid c, curbranch c, wfile, curuser c,
                                     if purpose_opt = [] then ''editing'' else purpose_opt])
                     files))
          (snd (parseLocks c s))) of
       (Inl e, s') \<Rightarrow> (Inl e, s') | (Inr u, s') \<Rightarrow> (Inr 0, s'))"
proof -
  from assms have "find (\<lambda>w. map_of (fst (parseLocks c s)) w \<noteq> None) files = None"
    by (simp add: find_None_iff)
  then show ?thesis by (simp add: lockcmd_def case_prod_beta Let_def)
qed

text \<open>
  C8. When the commit succeeds and the push aborts, neither lock nor unlock raises. A lock
  whose targets are all free returns 0, the registry file holds the appended records, and
  the events are the commit, the push and the retry warning. An unlock that clears every
  requested path returns 0, the registry file holds the lines it writes back (those of five
  fields that it does not clear), and the events are the commit, the push and the retry
  warning. Nothing after the push touches the file or the commit.
\<close>
theorem push_failure_is_only_a_warning:
  assumes "commit_outcome env = Done" and "push_outcome env = Aborts why"
  shows "((\<forall>w \<in> set files. map_of (fst (parseLocks c s)) w = None) \<longrightarrow>
           fst (lockcmd c files purpose_opt env s) = Inr 0
           \<and> locked (snd (lockcmd c files purpose_opt env s))
               = Some ((case locked s of None \<Rightarrow> [] | Some content \<Rightarrow> content)
                       @ concat (map (\<lambda>wfile. encode [repoid c, curbranch c, wfile, curuser c,
                                     if purpose_opt = [] then ''editing'' else purpose_opt])
                                  files))
           \<and> events (snd (lockcmd c files purpose_opt env s))
               = events (snd (parseLocks c s)) @ [Commit ''add lock'', Push, retry_warning])
       \<and> (locked s = Some content \<and> card (cleared_paths c ulock force content) = length ulock \<longrightarrow>
           unlockcmd c ulock force env s
             = (Inr 0, \<lparr>locked = Some (concat (filter (\<lambda>line. length (decode line) = 5
                          \<and> \<not> clears c ulock force line) (readlines content))),
                        events = events s @ [Commit ''remove lock'', Push, retry_warning]\<rparr>))"
proof (intro conjI impI)
  assume free: "\<forall>w \<in> set files. map_of (fst (parseLocks c s)) w = None"
  note run = lockcmd_unheld [OF free, of purpose_opt env] commitpush_push_aborts [OF assms]
  show "fst (lockcmd c files purpose_opt env s) = Inr 0"
    by (simp add: run)
  show "locked (snd (lockcmd c files purpose_opt env s))
               = Some ((case locked s of None \<Rightarrow> [] | Some content \<Rightarrow> content)
                       @ concat (map (\<lambda>wfile. encode [repoid c, curbranch c, wfile, curuser c,
                                     if purpose_opt = [] then ''editing'' else purpose_opt])
                                  files))"
    by (simp add: run append_file_def parseLocks_def emit_def split: option.splits)
  show "events (snd (lockcmd c files purpose_opt env s))
               = events (snd (parseLocks c s)) @ [Commit ''add lock'', Push, retry_warning]"
    by (simp add: run append_file_def)
next
  assume "locked s = Some content \<and> card (cleared_paths c ulock force content) = length ulock"
  then have here: "locked s = Some content"
    and full: "card (cleared_paths c ulock force content) = length ulock" by simp_all
  show "unlockcmd c ulock force env s
             = (Inr 0, \<lparr>locked = Some (concat (filter (\<lambda>line. length (decode line) = 5
                          \<and> \<not> clears c ulock force line) (readlines content))),
                        events = events s @ [Commit ''remove lock'', Push, retry_warning]\<rparr>)"
    by (simp add: unlockcmd_full [OF here full] commitpush_push_aborts [OF assms] kept_lines_def)
qed

theorem push_failure_is_only_a_warning_witness:
  "commit_outcome hg_push_fails = Done
   \<and> push_outcome hg_push_fails = Aborts ''push failed''
   \<and> lockcmd alice [''c''] [] hg_push_fails world3
       = (Inr 0, \<lparr>locked = Some (registry3 @ encode [''r1'', ''dev'', ''c'', ''alice'', ''editing'']),
                  events = [Commit ''add lock'', Push, retry_warning]\<rparr>)
   \<and> unlockcmd alice [''a''] False hg_push_fails world3
       = (Inr 0, \<lparr>locked = Some (encode [''r1'', ''dev'', ''b'', ''bob'', ''edit'']),
                  events = [Commit ''remove lock'', Push, retry_warning]\<rparr>)"
proof -
  have h1: "commit_outcome hg_push_fails = Done"
    and h2: "push_outcome hg_push_fails = Aborts ''push failed''"
    by (simp_all add: hg_push_fails_def)
  have free: "\<forall>w \<in> set [''c'']. map_of (fst (parseLocks alice world3)) w = None"
    by code_simp
  have here: "locked world3 = Some registry3" by (simp add: world3_def)
  have full: "card (cleared_paths alice [''a''] False registry3) = length [''a'']"
    by code_simp
  have kept: "concat (filter (\<lambda>line. length (decode line) = 5
        \<and> \<not> clears alice [''a''] False line) (readlines registry3))
      = encode [''r1'', ''dev'', ''b'', ''bob'', ''edit'']"
    by code_simp
  have start: "events (snd (parseLocks alice world3)) = []" "events world3 = []"
      "repoid alice = ''r1''" "curbranch alice = ''dev''" "curuser alice = ''alice''"
    by (simp_all add: parseLocks_def world3_def alice_def)
  from push_failure_is_only_a_warning [OF h1 h2, where files = "[''c'']" and c = alice
      and s = world3 and purpose_opt = "[]" and content = registry3 and ulock = "[''a'']"
      and force = False]
  have "fst (lockcmd alice [''c''] [] hg_push_fails world3) = Inr 0
    \<and> locked (snd (lockcmd alice [''c''] [] hg_push_fails world3))
        = Some (registry3 @ encode [''r1'', ''dev'', ''c'', ''alice'', ''editing''])
    \<and> events (snd (lockcmd alice [''c''] [] hg_push_fails world3))
        = [Commit ''add lock'', Push, retry_warning]
    \<and> unlockcmd alice [''a''] False hg_push_fails world3
       = (Inr 0, \<lparr>locked = Some (encode [''r1'', ''dev'', ''b'', ''bob'', ''edit'']),
                  events = [Commit ''remove lock'', Push, retry_warning]\<rparr>)"
    using free here full kept start by simp
  then show ?thesis using h1 h2
    by (cases "lockcmd alice [''c''] [] hg_push_fails world3") auto
qed

subsection \<open>The record codec\<close>

lemma split_from_field:
  "sep \<notin> set f \<Longrightarrow> split_from sep cur (f @ sep # rest) = (cur @ f) # split_from sep [] rest"
  by (induction f arbitrary: cur) auto

lemma split_from_last: "sep \<notin> set f \<Longrightarrow> split_from sep cur f = [cur @ f]"
  by (induction f arbitrary: cur) auto

lemma split_on_five:
  assumes "sep \<notin> set f1" "sep \<notin> set f2" "sep \<notin> set f3" "sep \<notin> set f4" "sep \<notin> set f5"
  shows "split_on sep (f1 @ sep # f2 @ sep # f3 @ sep # f4 @ sep # f5) = [f1, f2, f3, f4, f5]"
  using assms by (simp add: split_on_def split_from_field split_from_last)

lemma strip_line:
  assumes "b \<noteq> []" and "\<not> isspace (hd b)" and "\<not> isspace (last b)"
  shows "strip (b @ [NL]) = b"
proof -
  have front: "dropWhile isspace (b @ [NL]) = b @ [NL]"
    using assms(1,2) by (cases b) auto
  have "isspace NL" by (simp add: isspace_def)
  then have "dropWhile isspace (rev (b @ [NL])) = dropWhile isspace (rev b)"
    by simp
  also have "\<dots> = rev b"
    using assms(1,3) by (cases "rev b") (auto simp: last_rev[symmetric] simp del: last_rev)
  finally show ?thesis
    by (simp add: strip_def front)
qed

lemma decode_line5:
  assumes tabs: "TAB \<notin> set f1" "TAB \<notin> set f2" "TAB \<notin> set f3" "TAB \<notin> set f4" "TAB \<notin> set f5"
    and first: "f1 \<noteq> []" "\<not> isspace (hd f1)"
    and last: "f5 \<noteq> []" "\<not> isspace (last f5)"
  shows "decode (f1 @ TAB # f2 @ TAB # f3 @ TAB # f4 @ TAB # f5 @ [NL]) = [f1, f2, f3, f4, f5]"
proof -
  let ?b = "f1 @ TAB # f2 @ TAB # f3 @ TAB # f4 @ TAB # f5"
  have "?b \<noteq> []" "hd ?b = hd f1" using first by simp_all
  moreover have "last ?b = last f5" using last by simp
  ultimately have "strip (?b @ [NL]) = ?b"
    using first last by (intro strip_line) simp_all
  then show ?thesis
    using tabs by (simp add: decode_def split_on_five)
qed

lemma encode5: "encode [f1, f2, f3, f4, f5] = f1 @ TAB # f2 @ TAB # f3 @ TAB # f4 @ TAB # f5 @ [NL]"
  by (simp add: encode_def)

lemma parse_loop_append:
  "parse_loop c (xs @ ys) locks = parse_loop c ys (parse_loop c xs locks)"
  by (induction xs arbitrary: locks) (simp_all add: Let_def)

lemma parse_loop_skip:
  "length (decode line) \<noteq> 5 \<Longrightarrow> parse_loop c (line # rest) locks = parse_loop c rest locks"
  by simp

text \<open>
  C7 (as amended). A line \<^verbatim>\<open>f1 TAB f2 TAB f3 TAB f4 TAB f5 NL\<close> whose fields hold no tab
  and no newline and have no leading or trailing whitespace, and whose first and last
  fields are not empty, decodes to exactly these five fields, and encoding them again
  gives the line back. A line that does not decode to five fields is skipped by the loop
  of \<^verbatim>\<open>parseLocks\<close>: the mapping is the one read from the registry without that line.
\<close>
theorem decode_encode_roundtrip:
  "(clean_field f1 \<and> clean_field f2 \<and> clean_field f3 \<and> clean_field f4 \<and> clean_field f5
      \<and> f1 \<noteq> [] \<and> f5 \<noteq> [] \<longrightarrow>
      decode (f1 @ [TAB] @ f2 @ [TAB] @ f3 @ [TAB] @ f4 @ [TAB] @ f5 @ [NL]) = [f1, f2, f3, f4, f5]
      \<and> encode (decode (f1 @ [TAB] @ f2 @ [TAB] @ f3 @ [TAB] @ f4 @ [TAB] @ f5 @ [NL]))
          = f1 @ [TAB] @ f2 @ [TAB] @ f3 @ [TAB] @ f4 @ [TAB] @ f5 @ [NL])
   \<and> (length (decode line) \<noteq> 5 \<longrightarrow>
      parse_loop c (before @ line # after) locks = parse_loop c (before @ after) locks)"
proof (intro conjI impI)
  assume clean: "clean_field f1 \<and> clean_field f2 \<and> clean_field f3 \<and> clean_field f4
      \<and> clean_field f5 \<and> f1 \<noteq> [] \<and> f5 \<noteq> []"
  then have d: "decode (f1 @ TAB # f2 @ TAB # f3 @ TAB # f4 @ TAB # f5 @ [NL]) = [f1, f2, f3, f4, f5]"
    by (intro decode_line5) (auto simp: clean_field_def)
  then show "decode (f1 @ [TAB] @ f2 @ [TAB] @ f3 @ [TAB] @ f4 @ [TAB] @ f5 @ [NL]) = [f1, f2, f3, f4, f5]"
    by simp
  from d show "encode (decode (f1 @ [TAB] @ f2 @ [TAB] @ f3 @ [TAB] @ f4 @ [TAB] @ f5 @ [NL]))
          = f1 @ [TAB] @ f2 @ [TAB] @ f3 @ [TAB] @ f4 @ [TAB] @ f5 @ [NL]"
    by (simp add: encode5)
next
  assume "length (decode line) \<noteq> 5"
  then show "parse_loop c (before @ line # after) locks = parse_loop c (before @ after) locks"
    by (simp add: parse_loop_append)
qed

theorem decode_encode_roundtrip_witness:
  "clean_field ''r1'' \<and> clean_field ''dev'' \<and> clean_field ''a b'' \<and> clean_field [] \<and> clean_field ''x''
   \<and> decode (''r1'' @ [TAB] @ ''dev'' @ [TAB] @ ''a b'' @ [TAB] @ [] @ [TAB] @ ''x'' @ [NL])
       = [''r1'', ''dev'', ''a b'', [], ''x'']
   \<and> length (decode (encode [''junk'', ''line''])) \<noteq> 5
   \<and> parse_loop alice ([encode [''r1'', ''dev'', ''a'', ''bob'', ''x'']] @ encode [''junk'', ''line''] # []) []
       = [(''a'', (''bob'', ''x''))]"
proof -
  have h1: "clean_field ''r1'' \<and> clean_field ''dev'' \<and> clean_field ''a b'' \<and> clean_field []
      \<and> clean_field ''x'' \<and> ''r1'' \<noteq> [] \<and> ''x'' \<noteq> []"
    by (simp add: clean_field_def isspace_def)
  have h2: "length (decode (encode [''junk'', ''line''])) \<noteq> 5" by code_simp
  have h3: "parse_loop alice ([encode [''r1'', ''dev'', ''a'', ''bob'', ''x'']] @ []) []
       = [(''a'', (''bob'', ''x''))]" by code_simp
  from decode_encode_roundtrip [of "''r1''" "''dev''" "''a b''" "[]" "''x''"
      "encode [''junk'', ''line'']" alice "[encode [''r1'', ''dev'', ''a'', ''bob'', ''x'']]" "[]" "[]"]
  show ?thesis using h1 h2 h3 by simp
qed

text \<open>
  The claim as stated fails when the first field is empty: \<^verbatim>\<open>strip\<close> removes the tab
  that follows it, and four fields are left.
\<close>

theorem decode_empty_first_field_counterexample:
  "clean_field [] \<and> clean_field ''b'' \<and> clean_field ''c'' \<and> clean_field ''d'' \<and> clean_field ''e''
   \<and> decode ([] @ [TAB] @ ''b'' @ [TAB] @ ''c'' @ [TAB] @ ''d'' @ [TAB] @ ''e'' @ [NL])
       = [''b'', ''c'', ''d'', ''e'']"
  by (simp add: clean_field_def isspace_def decode_def strip_def split_on_def)

subsection \<open>Sequences of lock operations\<close>

lemma wf_record_fields:
  assumes "wf_record rid br r"
  obtains w u p where "r = [rid, br, w, u, p]" "plain w" "plain u" "plain p"
    "p \<noteq> []" "\<not> isspace (last p)"
proof -
  from assms have "length r = 5" by (simp add: wf_record_def)
  then obtain f1 f2 f3 f4 f5 where "r = [f1, f2, f3, f4, f5]"
    by (auto simp: length_Suc_conv eval_nat_numeral)
  with assms that show ?thesis by (simp add: wf_record_def)
qed

lemma decode_encode_record:
  assumes "sane_repo rid br" and "wf_record rid br r"
  shows "decode (encode r) = r"
proof -
  from assms(2) obtain w u p where r: "r = [rid, br, w, u, p]"
    and f: "plain w" "plain u" "plain p" "p \<noteq> []" "\<not> isspace (last p)"
    by (rule wf_record_fields)
  from assms(1) f show ?thesis
    unfolding r encode5 by (intro decode_line5) (simp_all add: sane_repo_def plain_def)
qed

lemma encode_record_line:
  assumes "sane_repo rid br" and "wf_record rid br r"
  shows "\<exists>l. encode r = l @ [NL] \<and> NL \<notin> set l"
proof -
  from assms(2) obtain w u p where r: "r = [rid, br, w, u, p]"
    and f: "plain w" "plain u" "plain p"
    by (rule wf_record_fields)
  from assms(1) f have "NL \<notin> set (rid @ TAB # br @ TAB # w @ TAB # u @ TAB # p)"
    by (simp add: sane_repo_def plain_def)
  then show ?thesis
    unfolding r encode5 by (intro exI [of _ "rid @ TAB # br @ TAB # w @ TAB # u @ TAB # p"]) simp
qed

lemma readlines_line:
  "NL \<notin> set l \<Longrightarrow> readlines (l @ NL # rest) = (l @ [NL]) # readlines rest"
  by (induction l) auto

lemma readlines_records:
  assumes "sane_repo rid br"
  shows "\<forall>r \<in> set rs. wf_record rid br r \<Longrightarrow> readlines (concat (map encode rs)) = map encode rs"
proof (induction rs)
  case Nil
  show ?case by simp
next
  case (Cons r rs)
  then have "wf_record rid br r" by simp
  with assms obtain l where l: "encode r = l @ [NL]" "NL \<notin> set l"
    using encode_record_line by blast
  have "readlines (concat (map encode (r # rs))) = readlines (l @ NL # concat (map encode rs))"
    by (simp add: l)
  also have "\<dots> = (l @ [NL]) # readlines (concat (map encode rs))"
    using l(2) by (rule readlines_line)
  finally show ?case using Cons l by simp
qed

lemma parse_step:
  assumes "sane_repo (repoid c) (curbranch c)" and "wf_record (repoid c) (curbranch c) r"
  shows "parse_loop c (encode r # rest) locks
    = parse_loop c rest (AList.update (r ! 2) (r ! 3, r ! 4) locks)"
  using assms(2) by (simp add: decode_encode_record [OF assms] wf_record_def Let_def)

lemma parse_records_other:
  assumes "sane_repo (repoid c) (curbranch c)"
  shows "\<forall>r \<in> set rs. wf_record (repoid c) (curbranch c) r \<Longrightarrow> w \<notin> (\<lambda>r. r ! 2) ` set rs
    \<Longrightarrow> map_of (parse_loop c (map encode rs) locks) w = map_of locks w"
  by (induction rs arbitrary: locks)
    (simp_all add: parse_step [OF assms] update_conv' del: parse_loop.simps(2))

lemma parse_records_hit:
  assumes "sane_repo (repoid c) (curbranch c)"
  shows "\<forall>r \<in> set rs. wf_record (repoid c) (curbranch c) r \<Longrightarrow> distinct (map (\<lambda>r. r ! 2) rs)
    \<Longrightarrow> r \<in> set rs
    \<Longrightarrow> map_of (parse_loop c (map encode rs) locks) (r ! 2) = Some (r ! 3, r ! 4)"
proof (induction rs arbitrary: locks)
  case Nil
  then show ?case by simp
next
  case (Cons x rs)
  have step: "parse_loop c (map encode (x # rs)) locks
      = parse_loop c (map encode rs) (AList.update (x ! 2) (x ! 3, x ! 4) locks)"
    using Cons.prems(1) by (simp add: parse_step [OF assms] del: parse_loop.simps(2))
  show ?case
  proof (cases "r = x")
    case True
    have "x ! 2 \<notin> (\<lambda>r. r ! 2) ` set rs" using Cons.prems(2) by auto
    with Cons.prems(1) have "map_of (parse_loop c (map encode rs)
          (AList.update (x ! 2) (x ! 3, x ! 4) locks)) (x ! 2)
        = map_of (AList.update (x ! 2) (x ! 3, x ! 4) locks) (x ! 2)"
      by (intro parse_records_other [OF assms]) simp_all
    then show ?thesis using True unfolding step by (simp add: update_conv')
  next
    case False
    with Cons.prems have "r \<in> set rs" by simp
    with Cons.prems show ?thesis unfolding step by (intro Cons.IH) simp_all
  qed
qed

lemma commitpush_ok:
  "commitpush message hg_ok s = (Inr (), s\<lparr>events := events s @ [Commit message, Push]\<rparr>)"
  by (simp add: commitpush_def hg_ok_def emit_def)

lemma wf_record_of:
  assumes "sane_op (files, user, purpose_opt)" and "w \<in> set files"
  shows "wf_record rid br (record_of rid br user purpose_opt w)"
  using assms by (auto simp: sane_op_def wf_record_def record_of_def plain_def isspace_def)

lemma lockcmd_step:
  assumes repo: "sane_repo rid br"
    and sane: "sane_op (files, user, purpose_opt)"
    and inv: "\<forall>r \<in> set rs. wf_record rid br r"
    and reg: "locked s = Some (concat (map encode rs))"
    and fresh: "set files \<inter> (\<lambda>r. r ! 2) ` set rs = {}"
  shows "fst (lockcmd \<lparr>repoid = rid, curbranch = br, curuser = user\<rparr> files purpose_opt hg_ok s) = Inr 0
    \<and> locked (snd (lockcmd \<lparr>repoid = rid, curbranch = br, curuser = user\<rparr> files purpose_opt hg_ok s))
        = Some (concat (map encode (rs @ map (record_of rid br user purpose_opt) files)))"
proof -
  let ?c = "\<lparr>repoid = rid, curbranch = br, curuser = user\<rparr>"
  have repo': "sane_repo (repoid ?c) (curbranch ?c)" using repo by simp
  have inv': "\<forall>r \<in> set rs. wf_record (repoid ?c) (curbranch ?c) r" using inv by simp
  have parsed: "parseLocks ?c s = (parse_loop ?c (map encode rs) [], s)"
    by (simp add: parseLocks_present [OF reg] readlines_records [OF repo inv])
  have free: "\<forall>w \<in> set files. map_of (fst (parseLocks ?c s)) w = None"
  proof
    fix w assume "w \<in> set files"
    with fresh have "w \<notin> (\<lambda>r. r ! 2) ` set rs" by auto
    with inv' have "map_of (parse_loop ?c (map encode rs) []) w = map_of [] w"
      by (intro parse_records_other [OF repo'])
    then show "map_of (fst (parseLocks ?c s)) w = None" by (simp add: parsed)
  qed
  show ?thesis
    by (simp add: lockcmd_unheld [OF free] commitpush_ok parsed append_file_def reg
        record_of_def comp_def)
qed


lemma path_record_of: "record_of rid br user purpose_opt wfile ! 2 = wfile"
  by (simp add: record_of_def)

lemma paths_record_of:
  "map (\<lambda>r. r ! 2) (map (record_of rid br user purpose_opt) files) = files"
  by (induction files) (simp_all add: path_record_of)

lemma paths_acquired: "map (\<lambda>r. r ! 2) (acquired rid br ops) = concat (map fst ops)"
proof (induction ops)
  case Nil
  show ?case by (simp add: acquired_def)
next
  case (Cons opn ops)
  obtain files user purpose_opt where opn: "opn = (files, user, purpose_opt)"
    by (cases opn)
  have "acquired rid br (opn # ops)
      = map (record_of rid br user purpose_opt) files @ acquired rid br ops"
    by (simp add: acquired_def opn)
  then have "map (\<lambda>r. r ! 2) (acquired rid br (opn # ops))
      = map (\<lambda>r. r ! 2) (map (record_of rid br user purpose_opt) files)
        @ map (\<lambda>r. r ! 2) (acquired rid br ops)"
    by (simp del: map_map)
  then show ?case unfolding paths_record_of Cons.IH by (simp add: opn)
qed

lemma wf_acquired:
  "\<forall>op \<in> set ops. sane_op op \<Longrightarrow> \<forall>r \<in> set (acquired rid br ops). wf_record rid br r"
  by (auto simp: acquired_def intro: wf_record_of)

lemma lock_all_records:
  assumes repo: "sane_repo rid br"
  shows "\<forall>op \<in> set ops. sane_op op \<Longrightarrow> \<forall>r \<in> set rs. wf_record rid br r
    \<Longrightarrow> locked s = Some (concat (map encode rs))
    \<Longrightarrow> distinct (map (\<lambda>r. r ! 2) rs @ concat (map fst ops))
    \<Longrightarrow> fst (lock_all rid br ops s) = Inr 0
      \<and> locked (snd (lock_all rid br ops s))
          = Some (concat (map encode (rs @ acquired rid br ops)))"
proof (induction ops arbitrary: rs s)
  case Nil
  then show ?case by (simp add: acquired_def)
next
  case (Cons opn ops)
  obtain files user purpose_opt where opn: "opn = (files, user, purpose_opt)"
    by (cases opn)
  let ?new = "map (record_of rid br user purpose_opt) files"
  let ?run = "lockcmd \<lparr>repoid = rid, curbranch = br, curuser = user\<rparr> files purpose_opt hg_ok s"
  have sane: "sane_op (files, user, purpose_opt)" using Cons.prems(1) opn by simp
  have fresh: "set files \<inter> (\<lambda>r. r ! 2) ` set rs = {}"
    using Cons.prems(4) opn by auto
  from lockcmd_step [OF repo sane Cons.prems(2,3) fresh]
  have ok: "fst ?run = Inr 0"
    and written: "locked (snd ?run) = Some (concat (map encode (rs @ ?new)))"
    by simp_all
  have wf_new: "\<forall>r \<in> set (rs @ ?new). wf_record rid br r"
    using Cons.prems(2) sane by (auto intro: wf_record_of)
  have "map (\<lambda>r. r ! 2) (rs @ ?new) = map (\<lambda>r. r ! 2) rs @ files"
    unfolding map_append paths_record_of ..
  then have dist: "distinct (map (\<lambda>r. r ! 2) (rs @ ?new) @ concat (map fst ops))"
    using Cons.prems(4) opn by simp
  have rest: "\<forall>op \<in> set ops. sane_op op" using Cons.prems(1) by simp
  from Cons.IH [OF rest wf_new written dist]
  have "fst (lock_all rid br ops (snd ?run)) = Inr 0
      \<and> locked (snd (lock_all rid br ops (snd ?run)))
          = Some (concat (map encode ((rs @ ?new) @ acquired rid br ops)))" .
  moreover have "lock_all rid br (opn # ops) s = lock_all rid br ops (snd ?run)"
    using ok unfolding opn by (cases ?run) simp
  moreover have "acquired rid br (opn # ops) = ?new @ acquired rid br ops"
    by (simp add: acquired_def opn)
  ultimately show ?case by simp
qed

text \<open>
  C1 (as amended). Start from an empty registry file and run lock operations of one
  repository and branch whose target lists, taken together, name no path twice; no value
  written holds a tab or a newline, the repository identity is not empty and does not
  start with whitespace, and no purpose ends with whitespace. Then every operation
  succeeds, the registry file is the records of the targets in the order they were
  acquired, its lines decode to exactly these records, no two of which name the same path,
  and \<^verbatim>\<open>parseLocks\<close> maps every acquired path to the user and the purpose of the
  operation that acquired it (\<^verbatim>\<open>editing\<close> when none was given).
\<close>
theorem disjoint_locks_one_record_each:
  assumes repo: "sane_repo rid br"
    and ops: "\<forall>op \<in> set ops. sane_op op"
    and disjoint: "distinct (concat (map fst ops))"
    and start: "locked s = Some []"
    and caller: "repoid c = rid" "curbranch c = br"
  shows "fst (lock_all rid br ops s) = Inr 0
    \<and> locked (snd (lock_all rid br ops s)) = Some (concat (map encode (acquired rid br ops)))
    \<and> map decode (readlines (concat (map encode (acquired rid br ops)))) = acquired rid br ops
    \<and> distinct (map (\<lambda>r. r ! 2) (acquired rid br ops))
    \<and> (\<forall>(files, user, purpose_opt) \<in> set ops. \<forall>wfile \<in> set files.
          map_of (fst (parseLocks c (snd (lock_all rid br ops s)))) wfile
            = Some (user, if purpose_opt = [] then ''editing'' else purpose_opt))"
proof -
  let ?recs = "acquired rid br ops"
  let ?s' = "snd (lock_all rid br ops s)"
  have wf: "\<forall>r \<in> set ?recs. wf_record rid br r" using ops by (rule wf_acquired)
  from lock_all_records [OF repo ops, of "[]" s] start disjoint
  have ok: "fst (lock_all rid br ops s) = Inr 0"
    and written: "locked ?s' = Some (concat (map encode ?recs))" by simp_all
  have lines: "readlines (concat (map encode ?recs)) = map encode ?recs"
    using repo wf by (rule readlines_records)
  have decoded: "map decode (readlines (concat (map encode ?recs))) = ?recs"
    unfolding lines using wf by (simp add: map_idI decode_encode_record [OF repo] comp_def)
  have paths: "distinct (map (\<lambda>r. r ! 2) ?recs)"
    using disjoint by (simp add: paths_acquired)
  have repo': "sane_repo (repoid c) (curbranch c)" using repo caller by simp
  have wf': "\<forall>r \<in> set ?recs. wf_record (repoid c) (curbranch c) r" using wf caller by simp
  have parsed: "fst (parseLocks c ?s') = parse_loop c (map encode ?recs) []"
    by (simp add: parseLocks_present [OF written] lines)
  have held: "\<forall>(files, user, purpose_opt) \<in> set ops. \<forall>wfile \<in> set files.
          map_of (fst (parseLocks c ?s')) wfile
            = Some (user, if purpose_opt = [] then ''editing'' else purpose_opt)"
  proof (intro ballI, clarify)
    fix files user purpose_opt wfile
    assume "(files, user, purpose_opt) \<in> set ops" and "wfile \<in> set files"
    then have "record_of rid br user purpose_opt wfile \<in> set ?recs"
      by (force simp: acquired_def)
    from parse_records_hit [OF repo' wf' paths this, of "[]"]
    show "map_of (fst (parseLocks c ?s')) wfile
            = Some (user, if purpose_opt = [] then ''editing'' else purpose_opt)"
      by (simp add: parsed record_of_def)
  qed
  from ok written decoded paths held show ?thesis by blast
qed

theorem disjoint_locks_one_record_each_witness:
  "sane_repo ''r1'' ''dev''
   \<and> sane_op ([''a'', ''b''], ''alice'', []) \<and> sane_op ([''c''], ''bob'', ''fix'')
   \<and> distinct (concat (map fst [([''a'', ''b''], ''alice'', []), ([''c''], ''bob'', ''fix'')]))
   \<and> locked empty_registry = Some []
   \<and> locked (snd (lock_all ''r1'' ''dev''
          [([''a'', ''b''], ''alice'', []), ([''c''], ''bob'', ''fix'')] empty_registry))
       = Some (encode [''r1'', ''dev'', ''a'', ''alice'', ''editing'']
               @ encode [''r1'', ''dev'', ''b'', ''alice'', ''editing'']
               @ encode [''r1'', ''dev'', ''c'', ''bob'', ''fix''])
   \<and> map_of (fst (parseLocks alice (snd (lock_all ''r1'' ''dev''
          [([''a'', ''b''], ''alice'', []), ([''c''], ''bob'', ''fix'')] empty_registry)))) ''c''
       = Some (''bob'', ''fix'')"
proof -
  let ?ops = "[([''a'', ''b''], ''alice'', []), ([''c''], ''bob'', ''fix'')]"
  have h1: "sane_repo ''r1'' ''dev''" by (simp add: sane_repo_def plain_def isspace_def)
  have h2: "\<forall>op \<in> set ?ops. sane_op op" by (simp add: sane_op_def plain_def isspace_def)
  have h3: "distinct (concat (map fst ?ops))" by simp
  have h4: "locked empty_registry = Some []" by (simp add: empty_registry_def)
  have h5: "repoid alice = ''r1''" "curbranch alice = ''dev''" by (simp_all add: alice_def)
  have recs: "acquired ''r1'' ''dev'' ?ops
      = [[''r1'', ''dev'', ''a'', ''alice'', ''editing''],
         [''r1'', ''dev'', ''b'', ''alice'', ''editing''],
         [''r1'', ''dev'', ''c'', ''bob'', ''fix'']]"
    by (simp add: acquired_def record_of_def)
  from disjoint_locks_one_record_each [OF h1 h2 h3 h4 h5]
  show ?thesis using h1 h2 h3 h4 by (simp add: recs)
qed

text \<open>
  The claim as stated fails for a purpose that ends with a space: the record is written
  with it, and \<^verbatim>\<open>parseLocks\<close> returns the purpose without it.
\<close>

theorem lock_trailing_space_counterexample:
  "fst (lock_all ''r1'' ''dev'' [([''a''], ''alice'', ''fix '')] empty_registry) = Inr 0
   \<and> map_of (fst (parseLocks alice
         (snd (lock_all ''r1'' ''dev'' [([''a''], ''alice'', ''fix '')] empty_registry)))) ''a''
       = Some (''alice'', ''fix'')
   \<and> (''alice'', ''fix'') \<noteq> (''alice'', ''fix '')"
proof -
  have a: "fst (lock_all ''r1'' ''dev'' [([''a''], ''alice'', ''fix '')] empty_registry) = Inr 0"
    by code_simp
  have b: "map_of (fst (parseLocks alice
         (snd (lock_all ''r1'' ''dev'' [([''a''], ''alice'', ''fix '')] empty_registry)))) ''a''
       = Some (''alice'', ''fix'')"
    by code_simp
  from a b show ?thesis by simp
qed

text \<open>
  The other conditions are needed as well. A target list that names a path twice leaves
  two records for it; a path that holds a tab is written as a line of six fields, which
  \<^verbatim>\<open>parseLocks\<close> skips.
\<close>

lemma lock_repeated_target_two_records:
  "fst (lock_all ''r1'' ''dev'' [([''a'', ''a''], ''alice'', [])] empty_registry) = Inr 0
   \<and> map decode (readlines (concat (map encode
         (acquired ''r1'' ''dev'' [([''a'', ''a''], ''alice'', [])]))))
       = [[''r1'', ''dev'', ''a'', ''alice'', ''editing''],
          [''r1'', ''dev'', ''a'', ''alice'', ''editing'']]
   \<and> locked (snd (lock_all ''r1'' ''dev'' [([''a'', ''a''], ''alice'', [])] empty_registry))
       = Some (concat (map encode (acquired ''r1'' ''dev'' [([''a'', ''a''], ''alice'', [])])))"
  by code_simp

lemma lock_tab_in_path_not_listed:
  "fst (lock_all ''r1'' ''dev'' [([[CHR ''a'', TAB, CHR ''b'']], ''alice'', [])] empty_registry) = Inr 0
   \<and> fst (parseLocks alice
        (snd (lock_all ''r1'' ''dev'' [([[CHR ''a'', TAB, CHR ''b'']], ''alice'', [])] empty_registry)))
       = []"
  by code_simp

end
